theory Spec2Isabelle
  imports Complex_Main
begin

section \<open>Numbers and formatting\<close>

text \<open>
  The source computes with JavaScript numbers. The model takes them to be exact reals:
  rounding error, overflow to an infinity and \<open>NaN\<close> arithmetic are not represented.
  Where the source would leave the finite numbers (a division by zero, a term code
  that is no key of the term table) the model stops with a \<open>failure\<close> value instead
  of a figure.
\<close>

definition EPSILON :: real where
  "EPSILON = 1 / 100"

text \<open>\<open>Math.round\<close>: the nearest integer, a half rounded up.\<close>

definition Math_round :: "real \<Rightarrow> int" where
  "Math_round x = \<lfloor>x + 1 / 2\<rfloor>"

text \<open>
  \<open>currencyFormatter.format\<close> is the platform's \<open>Intl.NumberFormat\<close> (US dollars, no
  fraction digits). The source only ever hands it a value of \<open>Math.round\<close>; the model
  keeps that whole number, \<open>USD n\<close>, in place of the characters of the string.
\<close>

datatype currency = USD int

text \<open>
  A call that returns figures which are no finite numbers: \<open>termYears\<close> undefined,
  a division by zero in the payment formula, or a \<open>NaN\<close> argument.
\<close>

datatype failure = UndefinedTerm | DivisionByZero | NaNArgument

section \<open>The engine: \<open>calculate\<close>, lines 85 to 134\<close>

text \<open>
  The table \<open>{ 0: 30, 1: 15 }\<close>; any other key gives \<open>undefined\<close>. The form passes the
  key as the text \<open>'0'\<close> or \<open>'1'\<close>, which names the same property as the number.
\<close>

definition termYears :: "nat \<Rightarrow> nat option" where
  "termYears = [0 \<mapsto> 30, 1 \<mapsto> 15]"

text \<open>One element of \<open>monthlyPayments\<close>.\<close>

record payment =
  interestPayment :: real
  principalPayment :: real
  principal :: real
  totalPaid :: real

text \<open>
  The body of the \<open>for\<close> loop up to the \<open>push\<close> (lines 106 to 125), from the running
  \<open>principal\<close> and \<open>totalPaid\<close> (here \<open>prin\<close> and \<open>paid\<close>); the entry pushed holds their
  new values.
\<close>

definition month :: "real \<Rightarrow> real \<Rightarrow> real \<Rightarrow> real \<Rightarrow> real \<Rightarrow> payment" where
  "month monthlyPayment interest extraPrincipal prin paid =
    (let ip = (prin * interest) / 12;
         pp0 = monthlyPayment + extraPrincipal - ip;
         pp = (if prin \<le> pp0 then prin else pp0);
         prin1 = prin - pp;
         paid1 = paid + (ip + pp);
         prin2 = (if prin1 \<le> EPSILON then 0 else prin1)
     in \<lparr>interestPayment = ip, principalPayment = pp, principal = prin2, totalPaid = paid1\<rparr>)"

text \<open>
  The \<open>for\<close> loop (lines 105 to 130) from counter \<open>j\<close>, with its \<open>break\<close>; it returns the
  running \<open>principal\<close> and \<open>totalPaid\<close> and the list \<open>monthlyPayments\<close>.
\<close>

function year :: "real \<Rightarrow> real \<Rightarrow> real \<Rightarrow> nat \<Rightarrow> real \<Rightarrow> real \<Rightarrow> payment list
    \<Rightarrow> real \<times> real \<times> payment list" where
  "year monthlyPayment interest extraPrincipal j prin paid monthlyPayments =
    (if j < 12 then
       (let m = month monthlyPayment interest extraPrincipal prin paid;
            monthlyPayments' = monthlyPayments @ [m]
        in if principal m \<le> EPSILON then (principal m, totalPaid m, monthlyPayments')
           else year monthlyPayment interest extraPrincipal (j + 1)
                  (principal m) (totalPaid m) monthlyPayments')
     else (prin, paid, monthlyPayments))"
  by pat_completeness auto
termination
  by (relation "measure (\<lambda>(mp, r, e, j, prin, paid, ms). 12 - j)") auto

text \<open>
  The \<open>while\<close> loop (lines 102 to 134). Nothing in the source bounds its iterations, so
  it is a partial function: \<open>None\<close> is a loop that never exits.
\<close>

partial_function (option) payoff :: "real \<Rightarrow> real \<Rightarrow> real \<Rightarrow> real \<Rightarrow> real
    \<Rightarrow> payment list list \<Rightarrow> (real \<times> real \<times> payment list list) option" where
  "payoff monthlyPayment interest extraPrincipal prin paid payments =
    (if prin > EPSILON then
       (case year monthlyPayment interest extraPrincipal 0 prin paid [] of
          (prin', paid', monthlyPayments) \<Rightarrow>
            payoff monthlyPayment interest extraPrincipal prin' paid'
              (if length monthlyPayments > 0 then payments @ [monthlyPayments]
               else payments))
     else Some (prin, paid, payments))"

text \<open>The locals of \<open>calculate\<close> when the \<open>while\<close> loop has exited (line 135).\<close>

record locals =
  l_monthlyPayment :: real
  l_principal :: real
  l_totalPaid :: real
  l_payments :: "payment list list"

text \<open>
  Lines 86 to 134: \<open>None\<close> when the \<open>while\<close> loop never exits. A division by zero in
  line 95 (\<open>b = 0\<close>) gives an infinity or \<open>NaN\<close> in the source, and so does an undefined
  \<open>termYears\<close>; both are failures here.
\<close>

definition simulate :: "real \<Rightarrow> real \<Rightarrow> nat \<Rightarrow> real \<Rightarrow> (failure + locals) option" where
  "simulate loanAmount interest loanTerm extraPrincipal =
    (case termYears loanTerm of
       None \<Rightarrow> Some (Inl UndefinedTerm)
     | Some ty \<Rightarrow>
        (let termMonths = ty * 12;
             i = interest / 12;
             a = i * (1 + i) ^ termMonths;
             b = (1 + i) ^ termMonths - 1
         in if b = 0 then Some (Inl DivisionByZero)
            else
             (let monthlyPayment = (loanAmount * a) / b
              in case payoff monthlyPayment interest extraPrincipal loanAmount 0 [] of
                   None \<Rightarrow> None
                 | Some (prin, paid, payments) \<Rightarrow>
                     Some (Inr \<lparr>l_monthlyPayment = monthlyPayment, l_principal = prin,
                                l_totalPaid = paid, l_payments = payments\<rparr>))))"

section \<open>Aggregation and the returned object: \<open>calculate\<close>, lines 136 to 173\<close>

record dataset =
  label :: string
  data :: "real list"

record chart =
  labels :: "nat list"
  datasets :: "dataset list"

record row =
  interest :: currency
  principal :: currency
  principalBalance :: currency

record calculation =
  monthlyPayment :: currency
  totalPaid :: currency
  totalYears :: nat
  chartData :: chart
  tableData :: "row list"

text \<open>The two accumulators of the inner \<open>forEach\<close> (lines 146 to 152).\<close>

definition yearInterest :: "payment list \<Rightarrow> real" where
  "yearInterest monthlyPayments = foldl (\<lambda>acc p. acc + interestPayment p) 0 monthlyPayments"

definition yearPrincipal :: "payment list \<Rightarrow> real" where
  "yearPrincipal monthlyPayments = foldl (\<lambda>acc p. acc + principalPayment p) 0 monthlyPayments"

text \<open>\<open>monthlyPayments[monthlyPayments.length - 1]?.principal ?? 0\<close> (lines 157, 158).\<close>

definition lastPrincipal :: "payment list \<Rightarrow> real" where
  "lastPrincipal monthlyPayments =
    (if monthlyPayments = [] then 0 else payment.principal (last monthlyPayments))"

text \<open>
  Lines 136 to 173, from the locals. The loop pushes no empty chunk (line 131), so no
  average divides by zero.
\<close>

definition report :: "locals \<Rightarrow> calculation" where
  "report l =
    \<lparr>monthlyPayment = USD (Math_round (l_monthlyPayment l)),
     totalPaid = USD (Math_round (l_totalPaid l)),
     totalYears = length (l_payments l),
     chartData =
       \<lparr>labels = map (\<lambda>index. index + 1) [0..<length (l_payments l)],
        datasets =
          [\<lparr>label = ''Interest'',
            data = map (\<lambda>ms. yearInterest ms / real (length ms)) (l_payments l)\<rparr>,
           \<lparr>label = ''Principal'',
            data = map (\<lambda>ms. yearPrincipal ms / real (length ms)) (l_payments l)\<rparr>]\<rparr>,
     tableData =
       map (\<lambda>ms. \<lparr>interest = USD (Math_round (yearInterest ms)),
                   principal = USD (Math_round (yearPrincipal ms)),
                   principalBalance = USD (Math_round (lastPrincipal ms))\<rparr>)
         (l_payments l)\<rparr>"

definition calculate :: "real \<Rightarrow> real \<Rightarrow> nat \<Rightarrow> real \<Rightarrow> (failure + calculation) option" where
  "calculate = (\<lambda>loanAmount interest loanTerm extraPrincipal.
    case simulate loanAmount interest loanTerm extraPrincipal of
      None \<Rightarrow> None
    | Some (Inl f) \<Rightarrow> Some (Inl f)
    | Some (Inr l) \<Rightarrow> Some (Inr (report l)))"

section \<open>The form: \<open>state\<close> and \<open>handleSubmit\<close>, lines 7 to 19 and 184 to 220\<close>

text \<open>
  What \<open>Number(text)\<close> gives for the text of a form field: \<open>NaN\<close> or a number (the
  infinities are left out, as everywhere in the model).
\<close>

datatype number = NaN | Num real

text \<open>\<open>isNaN(x)\<close>, \<open>!x\<close>, \<open>x < 0\<close> and \<open>x * y\<close> on such values.\<close>

fun isNaN :: "number \<Rightarrow> bool" where
  "isNaN NaN = True"
| "isNaN (Num x) = False"

fun not_number :: "number \<Rightarrow> bool" where
  "not_number NaN = True"
| "not_number (Num x) = (x = 0)"

fun less_zero :: "number \<Rightarrow> bool" where
  "less_zero NaN = False"
| "less_zero (Num x) = (x < 0)"

fun times_number :: "number \<Rightarrow> real \<Rightarrow> number" where
  "times_number NaN y = NaN"
| "times_number (Num x) y = Num (x * y)"

record results =
  monthlyPayment :: "currency option"
  totalPaid :: "currency option"
  totalYears :: "nat option"
  tableData :: "row list option"

text \<open>
  The store \<open>state\<close>, each text field held as the value \<open>Number\<close> gives for it, and
  with it the chart data that \<open>chartRef.current\<close> shows (\<open>None\<close> before the first chart).
\<close>

record state =
  loanAmount :: number
  interest :: number
  loanTerm :: nat
  extraMonthlyPayment :: number
  error :: "string option"
  results :: results
  chartRef :: "chart option"

definition initial_state :: state where
  "initial_state =
    \<lparr>loanAmount = Num 300000, interest = Num 7, loanTerm = 0, extraMonthlyPayment = Num 0,
     error = None,
     results = \<lparr>monthlyPayment = None, totalPaid = None, totalYears = None, tableData = None\<rparr>,
     chartRef = None\<rparr>"

text \<open>
  \<open>handleSubmit\<close>: the state it leaves, \<open>None\<close> when \<open>calculate\<close> does not return. The
  last branch calls \<open>calculate\<close>; there the three checks have excluded \<open>NaN\<close>, so its
  second case is never taken.
\<close>

definition handleSubmit :: "state \<Rightarrow> (failure + state) option" where
  "handleSubmit st =
    (let loanAmount = state.loanAmount st;
         interest = times_number (state.interest st) (1 / 100);
         extraMonthlyPayment = state.extraMonthlyPayment st
     in if isNaN loanAmount \<or> not_number loanAmount then
          Some (Inr (st\<lparr>error := Some ''Loan amount is invalid''\<rparr>))
        else if isNaN interest \<or> not_number interest then
          Some (Inr (st\<lparr>error := Some ''Interest is invalid''\<rparr>))
        else if isNaN extraMonthlyPayment \<or> less_zero extraMonthlyPayment then
          Some (Inr (st\<lparr>error := Some ''Extra monthly payment is invalid''\<rparr>))
        else
          (case (loanAmount, interest, extraMonthlyPayment) of
             (Num a, Num i, Num x) \<Rightarrow>
               (case calculate a i (loanTerm st) x of
                  None \<Rightarrow> None
                | Some (Inl f) \<Rightarrow> Some (Inl f)
                | Some (Inr c) \<Rightarrow>
                    Some (Inr (st\<lparr>error := Some [],
                      results := \<lparr>monthlyPayment = Some (calculation.monthlyPayment c),
                                  totalPaid = Some (calculation.totalPaid c),
                                  totalYears = Some (calculation.totalYears c),
                                  tableData = Some (calculation.tableData c)\<rparr>,
                      chartRef := Some (chartData c)\<rparr>)))
           | _ \<Rightarrow> Some (Inl NaNArgument)))"

section \<open>Valid inputs and the unrolled schedule\<close>

text \<open>
  The inputs the specification calls valid: a positive principal and annual rate, term
  code 0 or 1, and an extra payment that is not negative.
\<close>

definition valid_input :: "real \<Rightarrow> real \<Rightarrow> nat \<Rightarrow> real \<Rightarrow> bool" where
  "valid_input P r t e \<longleftrightarrow> 0 < P \<and> 0 < r \<and> (t = 0 \<or> t = 1) \<and> 0 \<le> e"

text \<open>
  The first \<open>k\<close> months from a running principal and total, one \<open>month\<close> after the
  other with no \<open>break\<close>: the entries the two loops push, in one list.
\<close>

fun months :: "real \<Rightarrow> real \<Rightarrow> real \<Rightarrow> nat \<Rightarrow> real \<Rightarrow> real \<Rightarrow> payment list" where
  "months mp r e 0 b paid = []"
| "months mp r e (Suc k) b paid =
     month mp r e b paid
       # months mp r e k (payment.principal (month mp r e b paid))
           (payment.totalPaid (month mp r e b paid))"

text \<open>The running principal after \<open>k\<close> months.\<close>

fun bal :: "real \<Rightarrow> real \<Rightarrow> real \<Rightarrow> nat \<Rightarrow> real \<Rightarrow> real" where
  "bal mp r e 0 b = b"
| "bal mp r e (Suc k) b = bal mp r e k (payment.principal (month mp r e b 0))"

declare bal.simps [simp del]

text \<open>A list cut into year chunks of twelve, the last one shorter.\<close>

fun chunks :: "'a list \<Rightarrow> 'a list list" where
  "chunks xs = (if xs = [] then [] else take 12 xs # chunks (drop 12 xs))"

declare chunks.simps [simp del]

text \<open>Line 95 as a function of the loan, the annual rate and the number of months.\<close>

definition amortization :: "real \<Rightarrow> real \<Rightarrow> nat \<Rightarrow> real" where
  "amortization P r n = P * (r / 12 * (1 + r / 12) ^ n) / ((1 + r / 12) ^ n - 1)"

text \<open>
  The balance that the payment of line 95 leaves after \<open>k\<close> of \<open>n\<close> months when nothing
  extra is paid, in closed form.
\<close>

definition scheduled :: "real \<Rightarrow> real \<Rightarrow> nat \<Rightarrow> nat \<Rightarrow> real" where
  "scheduled P r n k = P * ((1 + r / 12) ^ n - (1 + r / 12) ^ k) / ((1 + r / 12) ^ n - 1)"

text \<open>
  The three checks of \<open>handleSubmit\<close> (lines 191, 193 and 195), one for each field, and
  the message of each.
\<close>

datatype field = LoanAmount | Interest | ExtraMonthlyPayment

fun fails :: "state \<Rightarrow> field \<Rightarrow> bool" where
  "fails st LoanAmount \<longleftrightarrow> isNaN (loanAmount st) \<or> not_number (loanAmount st)"
| "fails st Interest \<longleftrightarrow>
     isNaN (times_number (interest st) (1 / 100))
     \<or> not_number (times_number (interest st) (1 / 100))"
| "fails st ExtraMonthlyPayment \<longleftrightarrow>
     isNaN (extraMonthlyPayment st) \<or> less_zero (extraMonthlyPayment st)"


section \<open>The loops against the unrolled schedule\<close>

lemma bal_0 [simp]: "bal mp r e 0 b = b"
  by (simp add: bal.simps)

lemma month_principal:
  "payment.principal (month mp r e b paid) =
    (if b + b * r / 12 - (mp + e) \<le> EPSILON then 0 else b + b * r / 12 - (mp + e))"
  by (auto simp: month_def Let_def EPSILON_def)

lemma month_principal_paid: "payment.principal (month mp r e b paid) = payment.principal (month mp r e b 0)"
  by (simp add: month_def Let_def)

lemma length_months [simp]: "length (months mp r e k b paid) = k"
  by (induction k arbitrary: b paid) auto

lemma months_principals:
  "map payment.principal (months mp r e k b paid) = map (\<lambda>j. bal mp r e (Suc j) b) [0..<k]"
proof (induction k arbitrary: b paid)
  case 0
  show ?case by simp
next
  case (Suc k)
  have "map (\<lambda>j. bal mp r e (Suc j) b) [0..<Suc k]
      = bal mp r e (Suc 0) b # map (\<lambda>j. bal mp r e (Suc (Suc j)) b) [0..<k]"
    by (simp add: upt_rec [of 0 "Suc k"] map_Suc_upt [symmetric] bal.simps del: upt_Suc)
  then show ?case
    using Suc.IH [of "payment.principal (month mp r e b paid)" "payment.totalPaid (month mp r e b paid)"]
    by (simp add: month_principal_paid [of mp r e b paid] bal.simps del: upt_Suc)
qed

lemma bal_Suc_end: "bal mp r e (Suc k) b = payment.principal (month mp r e (bal mp r e k b) 0)"
  by (induction k arbitrary: b) (auto simp: bal.simps)

lemma months_append:
  "months mp r e (k + n) b paid =
     months mp r e k b paid @
     months mp r e n (if k = 0 then b else payment.principal (last (months mp r e k b paid)))
       (if k = 0 then paid else payment.totalPaid (last (months mp r e k b paid)))"
proof (induction k arbitrary: b paid)
  case 0
  show ?case by simp
next
  case (Suc k)
  show ?case
    using Suc.IH [of "payment.principal (month mp r e b paid)" "payment.totalPaid (month mp r e b paid)"]
    by (cases k) auto
qed

lemma months_last_principal:
  "0 < k \<Longrightarrow> payment.principal (last (months mp r e k b paid)) = bal mp r e k b"
proof -
  assume k: "0 < k"
  have "months mp r e k b paid \<noteq> []"
    using k by (cases k) auto
  then have "payment.principal (last (months mp r e k b paid))
      = last (map payment.principal (months mp r e k b paid))"
    by (simp add: last_map)
  also have "\<dots> = last (map (\<lambda>j. bal mp r e (Suc j) b) [0..<k])"
    by (simp only: months_principals)
  also have "\<dots> = bal mp r e k b"
    using k by (cases k) auto
  finally show ?thesis .
qed

lemma year_done: "\<not> j < 12 \<Longrightarrow> year mp r e j b paid ms = (b, paid, ms)"
  by (subst year.simps) simp

lemma year_break:
  "j < 12 \<Longrightarrow> payment.principal (month mp r e b paid) \<le> EPSILON \<Longrightarrow>
   year mp r e j b paid ms =
     (payment.principal (month mp r e b paid), payment.totalPaid (month mp r e b paid),
      ms @ [month mp r e b paid])"
  by (subst year.simps) (simp add: Let_def)

lemma year_next:
  "j < 12 \<Longrightarrow> \<not> payment.principal (month mp r e b paid) \<le> EPSILON \<Longrightarrow>
   year mp r e j b paid ms =
     year mp r e (j + 1) (payment.principal (month mp r e b paid))
       (payment.totalPaid (month mp r e b paid)) (ms @ [month mp r e b paid])"
  by (subst year.simps) (simp add: Let_def)

lemma year_months:
  assumes "j + t = 12 \<or> payment.principal (last (months mp r e t b paid)) \<le> EPSILON"
    and "j + t \<le> 12" and "0 < t"
    and "\<forall>m \<in> set (butlast (months mp r e t b paid)). EPSILON < payment.principal m"
  shows "year mp r e j b paid ms =
    (payment.principal (last (months mp r e t b paid)),
     payment.totalPaid (last (months mp r e t b paid)),
     ms @ months mp r e t b paid)"
  using assms
proof (induction t arbitrary: j b paid ms)
  case 0
  then show ?case by simp
next
  case (Suc t)
  define m where "m = month mp r e b paid"
  define rest where "rest = months mp r e t (payment.principal m) (payment.totalPaid m)"
  have unroll: "months mp r e (Suc t) b paid = m # rest"
    by (simp add: m_def rest_def)
  have j: "j < 12" using Suc.prems(2) by simp
  show ?case
  proof (cases "t = 0")
    case True
    then have rest: "rest = []" by (simp add: rest_def)
    have stop: "j + 1 = 12 \<or> payment.principal m \<le> EPSILON"
      using Suc.prems(1) True unfolding unroll rest by simp
    show ?thesis
    proof (cases "payment.principal m \<le> EPSILON")
      case True
      then show ?thesis
        unfolding unroll rest using year_break [OF j, of mp r e b paid ms]
        by (simp add: m_def)
    next
      case False
      then have "\<not> j + 1 < 12" using stop by simp
      then show ?thesis
        unfolding unroll rest
        using year_next [OF j, of mp r e b paid ms] False year_done [of "j + 1"]
        by (simp add: m_def)
    qed
  next
    case False
    then have ne: "rest \<noteq> []"
      by (cases t) (auto simp: rest_def)
    have big: "\<not> payment.principal m \<le> EPSILON"
      using Suc.prems(4) ne unfolding unroll by simp
    have "year mp r e (j + 1) (payment.principal m) (payment.totalPaid m) (ms @ [m]) =
      (payment.principal (last rest), payment.totalPaid (last rest), (ms @ [m]) @ rest)"
      unfolding rest_def
    proof (rule Suc.IH)
      show "j + 1 + t = 12 \<or>
        payment.principal (last (months mp r e t (payment.principal m) (payment.totalPaid m))) \<le> EPSILON"
        using Suc.prems(1) ne unfolding unroll rest_def by simp
      show "j + 1 + t \<le> 12" using Suc.prems(2) by simp
      show "0 < t" using False by simp
      show "\<forall>x\<in>set (butlast (months mp r e t (payment.principal m) (payment.totalPaid m))).
        EPSILON < payment.principal x"
        using Suc.prems(4) ne unfolding unroll rest_def by simp
    qed
    then show ?thesis
      unfolding unroll using year_next [OF j, of mp r e b paid ms] big ne
      by (simp add: m_def)
  qed
qed

lemma chunks_Nil [simp]: "chunks [] = []"
  by (subst chunks.simps) simp

lemma chunks_short: "xs \<noteq> [] \<Longrightarrow> length xs \<le> 12 \<Longrightarrow> chunks xs = [xs]"
  by (subst chunks.simps) simp

lemma chunks_append: "length xs = 12 \<Longrightarrow> chunks (xs @ ys) = xs # chunks ys"
  by (subst chunks.simps) auto

lemma payoff_stop: "\<not> EPSILON < b \<Longrightarrow> payoff mp r e b paid ps = Some (b, paid, ps)"
  by (subst payoff.simps) simp

lemma payoff_next:
  "EPSILON < b \<Longrightarrow> year mp r e 0 b paid [] = (b', paid', ms) \<Longrightarrow> ms \<noteq> [] \<Longrightarrow>
   payoff mp r e b paid ps = payoff mp r e b' paid' (ps @ [ms])"
  by (subst payoff.simps) simp

lemma payoff_months:
  assumes "EPSILON < b" and "0 < N"
    and "\<forall>m \<in> set (butlast (months mp r e N b paid)). EPSILON < payment.principal m"
    and "payment.principal (last (months mp r e N b paid)) \<le> EPSILON"
  shows "payoff mp r e b paid ps =
    Some (payment.principal (last (months mp r e N b paid)),
          payment.totalPaid (last (months mp r e N b paid)),
          ps @ chunks (months mp r e N b paid))"
  using assms
proof (induction N arbitrary: b paid ps rule: less_induct)
  case (less N)
  show ?case
  proof (cases "N \<le> 12")
    case True
    define ms where "ms = months mp r e N b paid"
    have ne: "ms \<noteq> []" using less.prems(2) by (cases N) (auto simp: ms_def)
    have len: "length ms \<le> 12" using True by (simp add: ms_def)
    have "year mp r e 0 b paid [] =
      (payment.principal (last ms), payment.totalPaid (last ms), [] @ ms)"
      unfolding ms_def
      by (rule year_months) (use less.prems True in auto)
    then have "payoff mp r e b paid ps =
      payoff mp r e (payment.principal (last ms)) (payment.totalPaid (last ms)) (ps @ [ms])"
      using payoff_next [OF less.prems(1) _ ne] by simp
    also have "\<dots> = Some (payment.principal (last ms), payment.totalPaid (last ms), ps @ [ms])"
      using less.prems(4) by (intro payoff_stop) (simp add: ms_def)
    finally show ?thesis
      using chunks_short [OF ne len] by (simp add: ms_def)
  next
    case False
    define N' where "N' = N - 12"
    have N: "N = 12 + N'" and N': "0 < N'" "N' < N"
      using False by (auto simp: N'_def)
    define ms where "ms = months mp r e 12 b paid"
    define b' where "b' = payment.principal (last ms)"
    define paid' where "paid' = payment.totalPaid (last ms)"
    define rest where "rest = months mp r e N' b' paid'"
    have split: "months mp r e N b paid = ms @ rest"
      unfolding N using months_append [of mp r e 12 N' b paid]
      by (simp add: ms_def rest_def b'_def paid'_def)
    have len: "length ms = 12"
      by (simp add: ms_def)
    then have ne: "ms \<noteq> []"
      by auto
    have rest_ne: "rest \<noteq> []" using N'(1) by (cases N') (auto simp: rest_def)
    have bl: "butlast (ms @ rest) = ms @ butlast rest"
      using rest_ne by (simp add: butlast_append)
    have all: "\<forall>m \<in> set ms \<union> set (butlast rest). EPSILON < payment.principal m"
      using less.prems(3) unfolding split bl by simp
    have "year mp r e 0 b paid [] = (b', paid', [] @ ms)"
      unfolding ms_def b'_def paid'_def
    proof (rule year_months)
      show "\<forall>m\<in>set (butlast (months mp r e 12 b paid)). EPSILON < payment.principal m"
        using all by (auto simp: ms_def dest: in_set_butlastD)
    qed simp_all
    then have "payoff mp r e b paid ps = payoff mp r e b' paid' (ps @ [ms])"
      using payoff_next [OF less.prems(1) _ ne] by simp
    also have "\<dots> = Some (payment.principal (last rest), payment.totalPaid (last rest),
        (ps @ [ms]) @ chunks rest)"
      unfolding rest_def
    proof (rule less.IH [OF N'(2) _ N'(1)])
      show "EPSILON < b'"
        using all ne by (simp add: b'_def)
      show "\<forall>m\<in>set (butlast (months mp r e N' b' paid')). EPSILON < payment.principal m"
        using all by (simp add: rest_def)
      show "payment.principal (last (months mp r e N' b' paid')) \<le> EPSILON"
        using less.prems(4) rest_ne unfolding split by (simp add: rest_def)
    qed
    finally show ?thesis
      unfolding split using rest_ne chunks_append [OF len, of rest] by simp
  qed
qed

lemma pow_gt_1: "0 < r \<Longrightarrow> 0 < n \<Longrightarrow> 1 < (1 + r / 12 :: real) ^ n"
  by (simp add: one_less_power)

lemma scheduled_0: "0 < r \<Longrightarrow> 0 < n \<Longrightarrow> scheduled P r n 0 = P"
proof -
  assume "0 < r" "0 < n"
  then have "1 < (1 + r / 12) ^ n"
    by (rule pow_gt_1)
  then have "(1 + r / 12) ^ n - 1 \<noteq> 0"
    by linarith
  then show ?thesis
    by (simp add: scheduled_def)
qed

lemma scheduled_n: "scheduled P r n n = 0"
  by (simp add: scheduled_def)

lemma scheduled_Suc:
  assumes "0 < r" "0 < n"
  shows "scheduled P r n (Suc k) = scheduled P r n k + scheduled P r n k * r / 12 - amortization P r n"
proof -
  define q where "q = 1 + r / 12"
  have "1 < q ^ n" unfolding q_def using assms by (rule pow_gt_1)
  then have d: "q ^ n - 1 \<noteq> 0" by linarith
  have r: "r / 12 = q - 1" by (simp add: q_def)
  have "P * (q ^ n - q ^ k) * q - P * ((q - 1) * q ^ n) = P * (q ^ n - q ^ Suc k)"
    by (simp add: algebra_simps)
  then have "(P * (q ^ n - q ^ k) / (q ^ n - 1)) * q - P * ((q - 1) * q ^ n) / (q ^ n - 1)
      = P * (q ^ n - q ^ Suc k) / (q ^ n - 1)"
    by (simp only: times_divide_eq_left diff_divide_distrib [symmetric])
  moreover have "scheduled P r n k + scheduled P r n k * r / 12 = scheduled P r n k * q"
    by (simp add: q_def algebra_simps)
  ultimately show ?thesis
    unfolding scheduled_def amortization_def q_def [symmetric] r
    by simp
qed

lemma scheduled_decreasing:
  assumes "0 < r" "0 < n" "0 \<le> P"
  shows "scheduled P r n (Suc k) \<le> scheduled P r n k"
proof -
  define q where "q = 1 + r / 12"
  have "1 < q ^ n" unfolding q_def using assms(1,2) by (rule pow_gt_1)
  then have d: "0 < q ^ n - 1" by linarith
  have q: "1 \<le> q" using assms(1) by (simp add: q_def)
  then have "q ^ k \<le> q ^ Suc k"
    by (intro power_increasing) auto
  then have "P * (q ^ n - q ^ Suc k) \<le> P * (q ^ n - q ^ k)"
    using assms(3) by (intro mult_left_mono) auto
  then show ?thesis
    unfolding scheduled_def q_def [symmetric] using d by (simp add: divide_right_mono)
qed

lemma scheduled_antimono:
  assumes "0 < r" "0 < n" "0 \<le> P" "j \<le> k"
  shows "scheduled P r n k \<le> scheduled P r n j"
  using assms(4)
proof (induction k)
  case 0
  then show ?case by simp
next
  case (Suc k)
  then show ?case
    using scheduled_decreasing [OF assms(1-3), of k] by (cases "j = Suc k") auto
qed

lemma amortization_gt_interest:
  assumes "0 < r" "0 < n" "0 < P"
  shows "P * r / 12 < amortization P r n"
proof -
  define q where "q = 1 + r / 12"
  have "1 < q ^ n" unfolding q_def using assms(1,2) by (rule pow_gt_1)
  then have d: "0 < q ^ n - 1" by linarith
  have "r / 12 * (q ^ n - 1) < r / 12 * q ^ n"
    using assms(1) by (simp add: algebra_simps)
  then have "r / 12 < r / 12 * q ^ n / (q ^ n - 1)"
    using d by (simp only: pos_less_divide_eq)
  then have "P * (r / 12) < P * (r / 12 * q ^ n / (q ^ n - 1))"
    using assms(3) by (intro mult_strict_left_mono)
  then show ?thesis
    unfolding amortization_def q_def [symmetric] by simp
qed

lemma EPSILON_pos: "0 < EPSILON"
  by (simp add: EPSILON_def)

lemma step_nonneg: "0 \<le> payment.principal (month mp r e b paid)"
  using EPSILON_pos by (simp add: month_principal)

lemma step_mono:
  assumes "0 \<le> r" "b \<le> b'" "0 \<le> e"
  shows "payment.principal (month mp r e b paid) \<le> payment.principal (month mp r 0 b' paid')"
proof -
  have "b * r / 12 \<le> b' * r / 12"
    using assms(1,2) by (simp add: mult_right_mono divide_right_mono)
  then have "b + b * r / 12 - (mp + e) \<le> b' + b' * r / 12 - (mp + 0)"
    using assms(2,3) by linarith
  then show ?thesis
    using EPSILON_pos unfolding month_principal by (simp; linarith)
qed

lemma bal_mono:
  assumes "0 \<le> r" "0 \<le> e"
  shows "b \<le> b' \<Longrightarrow> bal mp r e k b \<le> bal mp r 0 k b'"
proof (induction k arbitrary: b b')
  case 0
  then show ?case by simp
next
  case (Suc k)
  show ?case
    unfolding bal.simps(2) [of _ _ _ k]
    by (rule Suc.IH) (rule step_mono [OF assms(1) Suc.prems assms(2)])
qed

lemma bal_nonneg: "0 \<le> b \<Longrightarrow> 0 \<le> bal mp r e k b"
proof (induction k arbitrary: b)
  case 0
  then show ?case by simp
next
  case (Suc k)
  show ?case
    unfolding bal.simps(2) [of _ _ _ k] by (rule Suc.IH) (rule step_nonneg)
qed

lemma bal_scheduled:
  assumes "0 < r" "0 < n" "EPSILON < P"
  shows "bal (amortization P r n) r 0 k P =
    (if EPSILON < scheduled P r n k then scheduled P r n k else 0)"
proof (induction k)
  case 0
  show ?case using assms by (simp add: scheduled_0)
next
  case (Suc k)
  have P: "0 < P" using assms(3) EPSILON_pos by linarith
  have mp: "0 < amortization P r n"
  proof -
    have "0 \<le> P * r / 12" using P assms(1) by simp
    then show ?thesis using amortization_gt_interest [OF assms(1,2) P] by linarith
  qed
  show ?case
  proof (cases "EPSILON < scheduled P r n k")
    case True
    then have "bal (amortization P r n) r 0 k P = scheduled P r n k"
      using Suc.IH by simp
    then show ?thesis
      unfolding bal_Suc_end month_principal scheduled_Suc [OF assms(1,2)]
      by simp
  next
    case False
    then have "bal (amortization P r n) r 0 k P = 0"
      using Suc.IH by simp
    moreover have "\<not> EPSILON < scheduled P r n (Suc k)"
      using False scheduled_decreasing [OF assms(1,2), of P k] P by linarith
    ultimately show ?thesis
      unfolding bal_Suc_end month_principal using mp EPSILON_pos by simp
  qed
qed

lemma bal_bounds:
  assumes "0 < r" "0 < n" "0 < P" "0 \<le> e"
  shows "bal (amortization P r n) r e (Suc k) P \<le> bal (amortization P r n) r e k P
    \<and> bal (amortization P r n) r e k P \<le> P"
proof (induction k)
  case 0
  have "P * r / 12 < amortization P r n"
    by (rule amortization_gt_interest [OF assms(1-3)])
  then show ?case
    using assms(3,4) unfolding bal_Suc_end month_principal by simp
next
  case (Suc k)
  define b where "b = bal (amortization P r n) r e (Suc k) P"
  have b: "0 \<le> b" "b \<le> P"
    using Suc.IH bal_nonneg [of P "amortization P r n" r e "Suc k"] assms(3)
    by (auto simp: b_def)
  have "b * r / 12 \<le> P * r / 12"
    using b(2) assms(1) by (simp add: mult_right_mono divide_right_mono)
  then have "b * r / 12 < amortization P r n + e"
    using amortization_gt_interest [OF assms(1-3)] assms(4) by linarith
  then have "payment.principal (month (amortization P r n) r e b 0) \<le> b"
    using b(1) unfolding month_principal by simp
  then show ?case
    using b(2) unfolding bal_Suc_end [of _ _ _ "Suc k"] b_def [symmetric] by simp
qed

lemma payoff_length:
  assumes "0 < r" "0 < n" "EPSILON < P" "0 \<le> e"
  shows "\<exists>N. 0 < N \<and> N \<le> n \<and> (\<forall>j<N. EPSILON < bal (amortization P r n) r e j P)
    \<and> bal (amortization P r n) r e N P \<le> EPSILON"
proof -
  define B where "B k = bal (amortization P r n) r e k P" for k
  have "B n \<le> bal (amortization P r n) r 0 n P"
    unfolding B_def using assms(1,4) by (intro bal_mono) auto
  also have "\<dots> = 0"
    using EPSILON_pos by (simp add: bal_scheduled [OF assms(1-3)] scheduled_n)
  finally have fin: "B n \<le> EPSILON"
    using EPSILON_pos by linarith
  then have "\<exists>k. B k \<le> EPSILON" ..
  then obtain N where 1: "B N \<le> EPSILON" and least: "\<And>j. j < N \<Longrightarrow> \<not> B j \<le> EPSILON"
    unfolding exists_least_iff [of "\<lambda>k. B k \<le> EPSILON"] by blast
  have 2: "N \<le> n"
    using least [of n] fin by (cases "N \<le> n") auto
  have 3: "\<forall>j<N. EPSILON < B j"
    using least by (simp add: not_le)
  have "B 0 = P" by (simp add: B_def)
  then have 4: "0 < N"
    using 1 assms(3) by (cases N) auto
  show ?thesis
    using 1 2 3 4 unfolding B_def by blast
qed

lemma months_nth_principal:
  "i < k \<Longrightarrow> payment.principal (months mp r e k b paid ! i) = bal mp r e (Suc i) b"
proof -
  assume i: "i < k"
  then have "payment.principal (months mp r e k b paid ! i)
      = map payment.principal (months mp r e k b paid) ! i"
    by simp
  also have "\<dots> = bal mp r e (Suc i) b"
    unfolding months_principals using i by simp
  finally show ?thesis .
qed

lemma months_butlast_big:
  assumes "\<forall>j<N. EPSILON < bal mp r e j b"
  shows "\<forall>m \<in> set (butlast (months mp r e N b paid)). EPSILON < payment.principal m"
proof
  fix m
  assume "m \<in> set (butlast (months mp r e N b paid))"
  then obtain i where i: "i < N - 1" and m: "m = butlast (months mp r e N b paid) ! i"
    by (auto simp: in_set_conv_nth)
  have "m = months mp r e N b paid ! i"
    using i m by (simp add: nth_butlast)
  then have "payment.principal m = bal mp r e (Suc i) b"
    using i by (simp add: months_nth_principal)
  then show "EPSILON < payment.principal m"
    using assms i by simp
qed

lemma bal_snap: "0 < N \<Longrightarrow> bal mp r e N b \<le> EPSILON \<Longrightarrow> bal mp r e N b = 0"
  by (cases N) (auto simp: bal_Suc_end month_principal split: if_splits)

lemma months_totalPaid:
  "0 < k \<Longrightarrow> payment.totalPaid (last (months mp r e k b paid)) =
     paid + (\<Sum>m\<leftarrow>months mp r e k b paid. interestPayment m + principalPayment m)"
proof (induction k arbitrary: b paid)
  case 0
  then show ?case by simp
next
  case (Suc k)
  define m where "m = month mp r e b paid"
  have paid: "payment.totalPaid m = paid + (interestPayment m + principalPayment m)"
    by (simp add: m_def month_def Let_def)
  show ?case
  proof (cases "k = 0")
    case True
    then show ?thesis using paid by (simp add: m_def)
  next
    case False
    then have "months mp r e k (payment.principal m) (payment.totalPaid m) \<noteq> []"
      by (cases k) auto
    then show ?thesis
      using Suc.IH [of "payment.principal m" "payment.totalPaid m"] False paid
      by (simp add: m_def [symmetric])
  qed
qed

lemma simulate_schedule:
  assumes "0 < P" "0 < r" "0 \<le> e" "termYears t = Some ty" "0 < ty"
  shows "\<exists>N. N \<le> ty * 12 \<and> (N = 0 \<longleftrightarrow> P \<le> EPSILON)
    \<and> (\<forall>j<N. EPSILON < bal (amortization P r (ty * 12)) r e j P)
    \<and> bal (amortization P r (ty * 12)) r e N P \<le> EPSILON
    \<and> simulate P r t e = Some (Inr
        \<lparr>l_monthlyPayment = amortization P r (ty * 12),
         l_principal = (if N = 0 then P else 0),
         l_totalPaid = (\<Sum>m\<leftarrow>months (amortization P r (ty * 12)) r e N P 0.
            interestPayment m + principalPayment m),
         l_payments = chunks (months (amortization P r (ty * 12)) r e N P 0)\<rparr>)"
proof -
  define mp where "mp = amortization P r (ty * 12)"
  have "1 < (1 + r / 12) ^ (ty * 12)"
    using assms(2,5) by (intro pow_gt_1) auto
  then have b: "(1 + r / 12) ^ (ty * 12) - 1 \<noteq> 0"
    by linarith
  have sim: "simulate P r t e =
    (case payoff mp r e P 0 [] of None \<Rightarrow> None
     | Some (prin, paid, payments) \<Rightarrow>
         Some (Inr \<lparr>l_monthlyPayment = mp, l_principal = prin,
                    l_totalPaid = paid, l_payments = payments\<rparr>))"
    using b by (simp only: simulate_def assms(4) Let_def mp_def amortization_def
        option.case if_False)
  show ?thesis
  proof (cases "P \<le> EPSILON")
    case True
    then have "payoff mp r e P 0 [] = Some (P, 0, [])"
      by (intro payoff_stop) simp
    then show ?thesis
      using True unfolding mp_def [symmetric] sim by (intro exI [of _ 0]) simp
  next
    case False
    then have big: "EPSILON < P" by simp
    obtain N where N: "0 < N" "N \<le> ty * 12" "\<forall>j<N. EPSILON < bal mp r e j P"
        "bal mp r e N P \<le> EPSILON"
      using payoff_length [OF assms(2) _ big assms(3), of "ty * 12"] assms(5)
      unfolding mp_def by auto
    define ms where "ms = months mp r e N P 0"
    have last: "payment.principal (last ms) = bal mp r e N P"
      unfolding ms_def using N(1) by (rule months_last_principal)
    have "payoff mp r e P 0 [] =
      Some (payment.principal (last ms), payment.totalPaid (last ms), [] @ chunks ms)"
      unfolding ms_def
    proof (rule payoff_months [OF big N(1)])
      show "\<forall>m\<in>set (butlast (months mp r e N P 0)). EPSILON < payment.principal m"
        using N(3) by (rule months_butlast_big)
      show "payment.principal (last (months mp r e N P 0)) \<le> EPSILON"
        using last N(4) by (simp add: ms_def)
    qed
    moreover have "payment.principal (last ms) = 0"
      using last bal_snap [OF N(1,4)] by simp
    moreover have "payment.totalPaid (last ms) =
        (\<Sum>m\<leftarrow>ms. interestPayment m + principalPayment m)"
      unfolding ms_def using months_totalPaid [OF N(1), of mp r e P 0] by simp
    ultimately show ?thesis
      using N False unfolding mp_def [symmetric] sim
      by (intro exI [of _ N]) (simp add: ms_def)
  qed
qed


section \<open>Valid inputs\<close>

lemma valid_termYears:
  "valid_input P r t e \<Longrightarrow> termYears t = Some (if t = 0 then 30 else 15)"
  by (auto simp: valid_input_def termYears_def)

lemma concat_chunks: "concat (chunks xs) = xs"
proof (induction xs rule: length_induct)
  case (1 xs)
  show ?case
  proof (cases "xs = []")
    case True
    then show ?thesis by simp
  next
    case False
    then have "length (drop 12 xs) < length xs" by simp
    then have "concat (chunks (drop 12 xs)) = drop 12 xs"
      using 1 by blast
    then show ?thesis
      using False by (subst chunks.simps) simp
  qed
qed



lemma simulate_valid:
  assumes "valid_input P r t e"
  obtains N where "N \<le> (if t = 0 then 360 else 180)"
    and "N = 0 \<longleftrightarrow> P \<le> EPSILON"
    and "\<forall>j<N. EPSILON < bal (amortization P r (if t = 0 then 360 else 180)) r e j P"
    and "bal (amortization P r (if t = 0 then 360 else 180)) r e N P \<le> EPSILON"
    and "simulate P r t e = Some (Inr
        \<lparr>l_monthlyPayment = amortization P r (if t = 0 then 360 else 180),
         l_principal = (if N = 0 then P else 0),
         l_totalPaid = (\<Sum>m\<leftarrow>months (amortization P r (if t = 0 then 360 else 180)) r e N P 0.
            interestPayment m + principalPayment m),
         l_payments = chunks (months (amortization P r (if t = 0 then 360 else 180)) r e N P 0)\<rparr>)"
proof -
  have v: "0 < P" "0 < r" "0 \<le> e"
    using assms(1) by (auto simp: valid_input_def)
  have ty: "0 < (if t = 0 then 30 else 15 :: nat)"
    by simp
  have n: "(if t = 0 then 30 else 15) * 12 = (if t = 0 then 360 else 180 :: nat)"
    by simp
  from simulate_schedule [OF v valid_termYears [OF assms(1)] ty]
  obtain N where "N \<le> (if t = 0 then 30 else 15) * 12 \<and> (N = 0 \<longleftrightarrow> P \<le> EPSILON)
    \<and> (\<forall>j<N. EPSILON < bal (amortization P r ((if t = 0 then 30 else 15) * 12)) r e j P)
    \<and> bal (amortization P r ((if t = 0 then 30 else 15) * 12)) r e N P \<le> EPSILON
    \<and> simulate P r t e = Some (Inr
        \<lparr>l_monthlyPayment = amortization P r ((if t = 0 then 30 else 15) * 12),
         l_principal = (if N = 0 then P else 0),
         l_totalPaid = (\<Sum>m\<leftarrow>months (amortization P r ((if t = 0 then 30 else 15) * 12)) r e N P 0.
            interestPayment m + principalPayment m),
         l_payments = chunks (months (amortization P r ((if t = 0 then 30 else 15) * 12)) r e N P 0)\<rparr>)" ..
  then show thesis
    unfolding n by (intro that [of N]) simp_all
qed

lemma calculate_report:
  "simulate P r t e = Some (Inr l) \<Longrightarrow> calculate P r t e = Some (Inr (report l))"
  by (simp add: calculate_def)

lemma bal_antimono:
  assumes "0 < r" "0 < n" "0 < P" "0 \<le> e" "j \<le> k"
  shows "bal (amortization P r n) r e k P \<le> bal (amortization P r n) r e j P"
  using assms(5)
proof (induction k)
  case 0
  then show ?case by simp
next
  case (Suc k)
  show ?case
  proof (cases "j = Suc k")
    case True
    then show ?thesis by simp
  next
    case False
    then have "bal (amortization P r n) r e k P \<le> bal (amortization P r n) r e j P"
      using Suc by simp
    then show ?thesis
      using bal_bounds [OF assms(1-4), of k] by linarith
  qed
qed


lemma scheduled_lower:
  assumes "0 < r" "0 \<le> P"
  shows "P / real (Suc m) \<le> scheduled P r (Suc m * 12) (Suc m * 12 - 12)"
proof -
  define x where "x = (1 + r / 12) ^ 12"
  have x: "1 < x"
    unfolding x_def using assms(1) by (intro pow_gt_1) auto
  have "Suc m * 12 = 12 * Suc m" and "Suc m * 12 - 12 = 12 * m"
    by simp_all
  then have pn: "(1 + r / 12) ^ (Suc m * 12) = x ^ Suc m"
    and pk: "(1 + r / 12) ^ (Suc m * 12 - 12) = x ^ m"
    by (simp_all only: x_def power_mult)
  define S where "S = (\<Sum>i<Suc m. x ^ i)"
  have S_le: "S \<le> real (Suc m) * x ^ m"
  proof -
    have "x ^ i \<le> x ^ m" if "i \<in> {..<Suc m}" for i
      using that x by (intro power_increasing) auto
    then have "S \<le> of_nat (card {..<Suc m}) * x ^ m"
      unfolding S_def by (rule sum_bounded_above)
    then show ?thesis by simp
  qed
  have S_pos: "0 < S"
  proof -
    have "x ^ 0 \<le> S"
      unfolding S_def using x by (intro member_le_sum) auto
    then show ?thesis by simp
  qed
  have num: "x ^ Suc m - x ^ m = (x - 1) * x ^ m"
    by (simp add: algebra_simps)
  have den: "x ^ Suc m - 1 = (x - 1) * S"
    unfolding S_def by (rule power_diff_1_eq)
  have "scheduled P r (Suc m * 12) (Suc m * 12 - 12) = P * ((x - 1) * x ^ m) / ((x - 1) * S)"
    unfolding scheduled_def pn pk num den ..
  also have "\<dots> = P * (x ^ m / S)"
    using x by simp
  finally have eq: "scheduled P r (Suc m * 12) (Suc m * 12 - 12) = P * (x ^ m / S)" .
  have "1 / real (Suc m) \<le> x ^ m / S"
  proof -
    have "1 * S \<le> x ^ m * real (Suc m)"
      using S_le by (simp add: mult.commute)
    then show ?thesis
      using S_pos by (simp add: frac_le_eq field_simps del: of_nat_Suc)
  qed
  then have "P * (1 / real (Suc m)) \<le> P * (x ^ m / S)"
    using assms(2) by (rule mult_left_mono)
  then show ?thesis
    unfolding eq by simp
qed




text \<open>With no extra payment, the number of months against the closed form.\<close>

lemma payoff_months_scheduled:
  assumes "0 < r" "0 < ty" "EPSILON < P"
    and "\<forall>j<N. EPSILON < bal (amortization P r (12 * ty)) r 0 j P"
    and "bal (amortization P r (12 * ty)) r 0 N P \<le> EPSILON"
  shows "12 * ty - 12 < N \<longleftrightarrow> EPSILON < scheduled P r (12 * ty) (12 * ty - 12)"
proof -
  have n: "0 < 12 * ty" using assms(2) by simp
  have P: "0 \<le> P" using assms(3) EPSILON_pos by linarith
  note sch = bal_scheduled [OF assms(1) n assms(3)]
  show ?thesis
  proof
    assume "12 * ty - 12 < N"
    then have "EPSILON < bal (amortization P r (12 * ty)) r 0 (12 * ty - 12) P"
      using assms(4) by simp
    then show "EPSILON < scheduled P r (12 * ty) (12 * ty - 12)"
      unfolding sch using EPSILON_pos by (simp split: if_splits)
  next
    assume big: "EPSILON < scheduled P r (12 * ty) (12 * ty - 12)"
    show "12 * ty - 12 < N"
    proof (rule ccontr)
      assume "\<not> 12 * ty - 12 < N"
      then have "N \<le> 12 * ty - 12" by simp
      then have "scheduled P r (12 * ty) (12 * ty - 12) \<le> scheduled P r (12 * ty) N"
        by (rule scheduled_antimono [OF assms(1) n P])
      then have "EPSILON < scheduled P r (12 * ty) N"
        using big by linarith
      then have "bal (amortization P r (12 * ty)) r 0 N P = scheduled P r (12 * ty) N"
        unfolding sch by simp
      then show False
        using assms(5) \<open>EPSILON < scheduled P r (12 * ty) N\<close> by linarith
    qed
  qed
qed


lemma scheduled_lower':
  assumes "0 < r" "0 \<le> P" "0 < ty"
  shows "P / real ty \<le> scheduled P r (12 * ty) (12 * ty - 12)"
proof -
  obtain m where m: "ty = Suc m"
    using assms(3) by (cases ty) auto
  have "12 * ty = Suc m * 12"
    by (simp add: m)
  then show ?thesis
    using scheduled_lower [OF assms(1,2), of m] by (simp only: m)
qed






lemma foldl_plus: "foldl (\<lambda>acc p. acc + f p) (a::real) ms = a + sum_list (map f ms)"
  by (induction ms arbitrary: a) auto

lemma yearInterest_sum: "yearInterest ms = (\<Sum>m\<leftarrow>ms. interestPayment m)"
  by (simp add: yearInterest_def foldl_plus)

lemma yearPrincipal_sum: "yearPrincipal ms = (\<Sum>m\<leftarrow>ms. principalPayment m)"
  by (simp add: yearPrincipal_def foldl_plus)

lemma chunks_set: "ms \<in> set (chunks xs) \<Longrightarrow> ms \<noteq> [] \<and> length ms \<le> 12"
proof (induction xs rule: length_induct)
  case (1 xs)
  show ?case
  proof (cases "xs = []")
    case True
    then show ?thesis using 1(2) by simp
  next
    case False
    then have ch: "chunks xs = take 12 xs # chunks (drop 12 xs)"
      by (subst chunks.simps) simp
    have "length (drop 12 xs) < length xs"
      using False by simp
    then have "ms \<in> set (chunks (drop 12 xs)) \<Longrightarrow> ms \<noteq> [] \<and> length ms \<le> 12"
      using 1(1) by blast
    then show ?thesis
      using 1(2) False unfolding ch by auto
  qed
qed

lemma chunks_last: "xs \<noteq> [] \<Longrightarrow> last (last (chunks xs)) = last xs"
proof (induction xs rule: length_induct)
  case (1 xs)
  have ch: "chunks xs = take 12 xs # chunks (drop 12 xs)"
    using 1(2) by (subst chunks.simps) simp
  show ?case
  proof (cases "drop 12 xs = []")
    case True
    then show ?thesis
      unfolding ch by simp
  next
    case False
    have "length (drop 12 xs) < length xs"
      using 1(2) by simp
    then have "last (last (chunks (drop 12 xs))) = last (drop 12 xs)"
      using 1(1) False by blast
    moreover have "chunks (drop 12 xs) \<noteq> []"
      using False by (subst chunks.simps) simp
    ultimately show ?thesis
      unfolding ch using False by simp
  qed
qed

lemma Math_round_0: "Math_round 0 = 0"
  by (simp add: Math_round_def)


lemma report_schedule:
  "calculation.totalYears (report l) = length (l_payments l)"
  "labels (chartData (report l)) = [1..<length (l_payments l) + 1]"
  "map data (datasets (chartData (report l))) =
     [map (\<lambda>ms. (\<Sum>m\<leftarrow>ms. interestPayment m) / real (length ms)) (l_payments l),
      map (\<lambda>ms. (\<Sum>m\<leftarrow>ms. principalPayment m) / real (length ms)) (l_payments l)]"
  "calculation.tableData (report l) =
     map (\<lambda>ms. \<lparr>row.interest = USD (Math_round (\<Sum>m\<leftarrow>ms. interestPayment m)),
                 row.principal = USD (Math_round (\<Sum>m\<leftarrow>ms. principalPayment m)),
                 principalBalance = USD (Math_round (lastPrincipal ms))\<rparr>) (l_payments l)"
proof -
  show "calculation.totalYears (report l) = length (l_payments l)"
    by (simp add: report_def)
  have "map (\<lambda>index. index + 1) [0..<n] = [1..<n + 1]" for n :: nat
    using map_Suc_upt [of 0 n] by simp
  then show "labels (chartData (report l)) = [1..<length (l_payments l) + 1]"
    by (simp add: report_def)
  show "map data (datasets (chartData (report l))) =
     [map (\<lambda>ms. (\<Sum>m\<leftarrow>ms. interestPayment m) / real (length ms)) (l_payments l),
      map (\<lambda>ms. (\<Sum>m\<leftarrow>ms. principalPayment m) / real (length ms)) (l_payments l)]"
    by (simp add: report_def yearInterest_sum yearPrincipal_sum)
  show "calculation.tableData (report l) =
     map (\<lambda>ms. \<lparr>row.interest = USD (Math_round (\<Sum>m\<leftarrow>ms. interestPayment m)),
                 row.principal = USD (Math_round (\<Sum>m\<leftarrow>ms. principalPayment m)),
                 principalBalance = USD (Math_round (lastPrincipal ms))\<rparr>) (l_payments l)"
    by (simp add: report_def yearInterest_sum yearPrincipal_sum)
qed

lemma first_year_balance:
  assumes "0 < r" "0 < n" "0 < P" "0 \<le> e" "12 < N"
    and "\<forall>j<N. EPSILON < bal (amortization P r n) r e j P"
  defines "ms \<equiv> months (amortization P r n) r e N P 0"
  shows "hd (chunks ms) \<noteq> []"
    and "EPSILON < payment.principal (last (hd (chunks ms)))"
    and "payment.principal (last (hd (chunks ms))) < P"
proof -
  have len: "length ms = N"
    by (simp add: ms_def)
  then have ne: "ms \<noteq> []"
    using assms(5) by auto
  have hd: "hd (chunks ms) = take 12 ms"
    using ne by (subst chunks.simps) simp
  show "hd (chunks ms) \<noteq> []"
    unfolding hd using ne by simp
  have "length (take 12 ms) = 12"
    using len assms(5) by simp
  then have "last (take 12 ms) = take 12 ms ! 11"
    using ne by (simp add: last_conv_nth)
  then have "payment.principal (last (hd (chunks ms))) = payment.principal (ms ! 11)"
    unfolding hd by simp
  also have "\<dots> = bal (amortization P r n) r e (Suc 11) P"
    unfolding ms_def using assms(5) by (intro months_nth_principal) simp
  finally have eq: "payment.principal (last (hd (chunks ms))) = bal (amortization P r n) r e 12 P"
    by simp
  show "EPSILON < payment.principal (last (hd (chunks ms)))"
    unfolding eq using assms(5,6) by simp
  have "bal (amortization P r n) r e 12 P \<le> bal (amortization P r n) r e (Suc 0) P"
    by (rule bal_antimono [OF assms(1-4)]) simp
  also have "\<dots> < P"
    unfolding bal_Suc_end month_principal
    using amortization_gt_interest [OF assms(1-3)] assms(3,4) by simp
  finally show "payment.principal (last (hd (chunks ms))) < P"
    unfolding eq .
qed

lemma simulate_payoff:
  assumes "termYears t = Some ty" and "(1 + r / 12) ^ (ty * 12) - 1 \<noteq> 0"
  shows "simulate P r t e =
    (case payoff (amortization P r (ty * 12)) r e P 0 [] of None \<Rightarrow> None
     | Some (prin, paid, payments) \<Rightarrow>
         Some (Inr \<lparr>l_monthlyPayment = amortization P r (ty * 12), l_principal = prin,
                    l_totalPaid = paid, l_payments = payments\<rparr>))"
  using assms(2)
  by (simp only: simulate_def assms(1) Let_def amortization_def option.case if_False)

lemma simulate_small:
  assumes "termYears t = Some ty" and "(1 + r / 12) ^ (ty * 12) - 1 \<noteq> 0" and "P \<le> EPSILON"
  shows "simulate P r t e =
    Some (Inr \<lparr>l_monthlyPayment = amortization P r (ty * 12), l_principal = P,
               l_totalPaid = 0, l_payments = []\<rparr>)"
proof -
  have "payoff (amortization P r (ty * 12)) r e P 0 [] = Some (P, 0, [])"
    using assms(3) by (intro payoff_stop) simp
  then show ?thesis
    unfolding simulate_payoff [OF assms(1,2)] by simp
qed

lemma payoff_returns:
  assumes "bal mp r e K P \<le> EPSILON"
  shows "\<exists>res. payoff mp r e P 0 [] = Some res"
proof (cases "EPSILON < P")
  case False
  then have "payoff mp r e P 0 [] = Some (P, 0, [])"
    by (rule payoff_stop)
  then show ?thesis ..
next
  case True
  have "\<exists>k. bal mp r e k P \<le> EPSILON"
    using assms ..
  then obtain N where N: "bal mp r e N P \<le> EPSILON"
    and least: "\<And>j. j < N \<Longrightarrow> \<not> bal mp r e j P \<le> EPSILON"
    unfolding exists_least_iff [of "\<lambda>k. bal mp r e k P \<le> EPSILON"] by blast
  have pos: "0 < N"
    using N True by (cases N) auto
  have big: "\<forall>j<N. EPSILON < bal mp r e j P"
    using least by (simp add: not_le)
  have "payoff mp r e P 0 [] =
    Some (payment.principal (last (months mp r e N P 0)),
          payment.totalPaid (last (months mp r e N P 0)),
          [] @ chunks (months mp r e N P 0))"
  proof (rule payoff_months [OF True pos])
    show "\<forall>m\<in>set (butlast (months mp r e N P 0)). EPSILON < payment.principal m"
      using big by (rule months_butlast_big)
    show "payment.principal (last (months mp r e N P 0)) \<le> EPSILON"
      using months_last_principal [OF pos, of mp r e P 0] N by simp
  qed
  then show ?thesis ..
qed

text \<open>A rate below zero: every month takes at least the payment off the principal.\<close>

lemma bal_decreasing:
  assumes "r \<le> 0" "0 < c" "0 \<le> P" "c = mp + e"
  shows "bal mp r e k P \<le> max 0 (P - real k * c)"
proof (induction k)
  case 0
  then show ?case using assms(3) by simp
next
  case (Suc k)
  define b where "b = bal mp r e k P"
  have b: "0 \<le> b" "b \<le> max 0 (P - real k * c)"
    using Suc bal_nonneg [OF assms(3), of mp r e k] by (simp_all add: b_def)
  have "b * r / 12 \<le> 0"
    using b(1) assms(1) by (simp add: mult_nonneg_nonpos divide_nonpos_pos)
  then have "b + b * r / 12 - (mp + e) \<le> b - c"
    using assms(4) by linarith
  then have "payment.principal (month mp r e b 0) \<le> max 0 (b - c)"
    unfolding month_principal by (cases "b + b * r / 12 - (mp + e) \<le> EPSILON") auto
  also have "\<dots> \<le> max 0 (P - real (Suc k) * c)"
    using b(2) assms(2) by (simp add: algebra_simps max_def split: if_splits)
  finally show ?case
    unfolding bal_Suc_end b_def .
qed

lemma simulate_negative_rate:
  assumes "- 12 < r" "r < 0" "0 < P" "0 \<le> e" "termYears t = Some ty" "0 < ty"
  shows "\<exists>l. simulate P r t e = Some (Inr l)"
proof -
  define q where "q = 1 + r / 12"
  define n where "n = ty * 12"
  have q: "0 < q" "q < 1"
    using assms(1,2) by (simp_all add: q_def)
  have n: "0 < n"
    using assms(6) by (simp add: n_def)
  have qn: "0 < q ^ n" "q ^ n < 1"
    using q n by (simp_all add: power_less_one_iff)
  then have den: "q ^ n - 1 < 0"
    by simp
  have "r / 12 * q ^ n < 0"
    using assms(2) qn(1) by (simp add: mult_neg_pos)
  then have "P * (r / 12 * q ^ n) < 0"
    using assms(3) by (simp add: mult_pos_neg)
  then have mp: "0 < amortization P r n"
    unfolding amortization_def q_def [symmetric] using den by (rule divide_neg_neg)
  define c where "c = amortization P r n + e"
  have c: "0 < c"
    using mp assms(4) by (simp add: c_def)
  define K where "K = nat \<lceil>P / c\<rceil>"
  have "P / c \<le> real K"
    unfolding K_def by linarith
  then have "P \<le> real K * c"
    using c by (simp add: pos_divide_le_eq)
  moreover have "bal (amortization P r n) r e K P \<le> max 0 (P - real K * c)"
    using assms(2,3) c by (intro bal_decreasing) (simp_all add: c_def)
  ultimately have "bal (amortization P r n) r e K P \<le> EPSILON"
    using EPSILON_pos by simp
  then obtain res where res: "payoff (amortization P r n) r e P 0 [] = Some res"
    using payoff_returns by blast
  have nz: "(1 + r / 12) ^ (ty * 12) - 1 \<noteq> 0"
    using den by (simp add: q_def n_def)
  show ?thesis
    unfolding simulate_payoff [OF assms(5) nz] using res unfolding n_def
    by (cases res) simp
qed

section \<open>The checks of the form\<close>

text \<open>What the first two checks reject: \<open>NaN\<close> and zero, and nothing else.\<close>

lemma loanAmount_check: "fails st LoanAmount \<longleftrightarrow> loanAmount st = NaN \<or> loanAmount st = Num 0"
  by (cases "loanAmount st") auto

lemma interest_check: "fails st Interest \<longleftrightarrow> interest st = NaN \<or> interest st = Num 0"
  by (cases "interest st") auto

lemma loanAmount_rejected:
  assumes "loanAmount st = NaN \<or> loanAmount st = Num 0"
  shows "handleSubmit st = Some (Inr (st\<lparr>error := Some ''Loan amount is invalid''\<rparr>))"
  using assms by (auto simp: handleSubmit_def Let_def)

lemma interest_rejected:
  assumes "\<not> fails st LoanAmount" and "interest st = NaN \<or> interest st = Num 0"
  shows "handleSubmit st = Some (Inr (st\<lparr>error := Some ''Interest is invalid''\<rparr>))"
  using assms by (auto simp: handleSubmit_def Let_def)

section \<open>The properties of the specification\<close>

text \<open>
  C1. For every valid input the monthly payment is computed before the loop as
  \<open>principal * i * (1 + i)^n / ((1 + i)^n - 1)\<close> with \<open>i = annualRate / 12\<close> and \<open>n\<close> = 360
  months for term code 0, 180 months for term code 1; the returned figure is that
  value rounded.
\<close>

theorem monthlyPayment_formula:
  assumes "valid_input P r t e"
  shows "\<exists>l. simulate P r t e = Some (Inr l)
    \<and> calculate P r t e = Some (Inr (report l))
    \<and> l_monthlyPayment l =
        P * (r / 12) * (1 + r / 12) ^ (if t = 0 then 360 else 180)
          / ((1 + r / 12) ^ (if t = 0 then 360 else 180) - 1)
    \<and> calculation.monthlyPayment (report l) = USD (Math_round (l_monthlyPayment l))"
proof -
  let ?mp = "amortization P r (if t = 0 then 360 else 180)"
  obtain N where N: "simulate P r t e = Some (Inr
      \<lparr>l_monthlyPayment = ?mp, l_principal = (if N = 0 then P else 0),
       l_totalPaid = (\<Sum>m\<leftarrow>months ?mp r e N P 0. interestPayment m + principalPayment m),
       l_payments = chunks (months ?mp r e N P 0)\<rparr>)"
    by (rule simulate_valid [OF assms])
  show ?thesis
    unfolding N using calculate_report [OF N]
    by (simp add: amortization_def report_def mult.assoc)
qed

theorem monthlyPayment_formula_witness:
  "valid_input 300000 (7 / 100) 0 0
   \<and> (\<exists>l. simulate 300000 (7 / 100) 0 0 = Some (Inr l)
      \<and> l_monthlyPayment l =
         300000 * (7 / 100 / 12) * (1 + 7 / 100 / 12) ^ 360 / ((1 + 7 / 100 / 12) ^ 360 - 1))"
proof -
  have v: "valid_input 300000 (7 / 100) 0 0"
    by (simp add: valid_input_def)
  show ?thesis
    using v monthlyPayment_formula [OF v] by auto
qed




text \<open>
  C3. For every valid input the total paid, before it is rounded for display, is the
  sum over every recorded month of its interest payment plus its principal payment.
\<close>

theorem totalPaid_conservation:
  assumes "valid_input P r t e"
  shows "\<exists>l. simulate P r t e = Some (Inr l)
    \<and> calculate P r t e = Some (Inr (report l))
    \<and> l_totalPaid l = (\<Sum>m\<leftarrow>concat (l_payments l). interestPayment m + principalPayment m)
    \<and> calculation.totalPaid (report l) = USD (Math_round (l_totalPaid l))"
proof -
  let ?mp = "amortization P r (if t = 0 then 360 else 180)"
  obtain N where N: "simulate P r t e = Some (Inr
      \<lparr>l_monthlyPayment = ?mp, l_principal = (if N = 0 then P else 0),
       l_totalPaid = (\<Sum>m\<leftarrow>months ?mp r e N P 0. interestPayment m + principalPayment m),
       l_payments = chunks (months ?mp r e N P 0)\<rparr>)"
    by (rule simulate_valid [OF assms])
  show ?thesis
    unfolding N using calculate_report [OF N]
    by (simp add: concat_chunks report_def)
qed

theorem totalPaid_conservation_witness:
  "valid_input 300000 (7 / 100) 0 500
   \<and> (\<exists>l. simulate 300000 (7 / 100) 0 500 = Some (Inr l)
      \<and> l_totalPaid l = (\<Sum>m\<leftarrow>concat (l_payments l). interestPayment m + principalPayment m))"
proof -
  have v: "valid_input 300000 (7 / 100) 0 500"
    by (simp add: valid_input_def)
  show ?thesis
    using v totalPaid_conservation [OF v] by auto
qed




text \<open>
  C5 at the loan amount \<open>-1\<close>, all else as the form starts: no check fails, the message
  is cleared and a result with 0 years is stored.
\<close>

theorem negative_loanAmount_accepted:
  "map_option (map_sum id (\<lambda>s. (error s, results.totalYears (results s))))
     (handleSubmit (initial_state\<lparr>loanAmount := Num (- 1)\<rparr>))
   = Some (Inr (Some [], Some 0))"
proof -
  have ty: "termYears 0 = Some 30"
    by (simp add: termYears_def)
  have "1 < (1 + 7 * (1 / 100) / 12 :: real) ^ (30 * 12)"
    by (intro pow_gt_1) simp_all
  then have nz: "(1 + 7 * (1 / 100) / 12 :: real) ^ (30 * 12) - 1 \<noteq> 0"
    by linarith
  have "simulate (- 1) (7 * (1 / 100)) 0 0 =
    Some (Inr \<lparr>l_monthlyPayment = amortization (- 1) (7 * (1 / 100)) (30 * 12),
               l_principal = - 1, l_totalPaid = 0, l_payments = []\<rparr>)"
    by (rule simulate_small [OF ty nz]) (simp add: EPSILON_def)
  then have "calculate (- 1) (7 * (1 / 100)) 0 0 =
    Some (Inr (report \<lparr>l_monthlyPayment = amortization (- 1) (7 * (1 / 100)) (30 * 12),
               l_principal = - 1, l_totalPaid = 0, l_payments = []\<rparr>))"
    by (rule calculate_report)
  then show ?thesis
    by (simp add: handleSubmit_def initial_state_def Let_def report_def)
qed

text \<open>
  C6 at the interest \<open>-7\<close> per cent, all else as the form starts: no check fails, the
  engine runs and returns, and the message is cleared.
\<close>

theorem negative_interest_accepted:
  "map_option (map_sum id error) (handleSubmit (initial_state\<lparr>interest := Num (- 7)\<rparr>))
   = Some (Inr (Some []))"
proof -
  have ty: "termYears 0 = Some 30"
    by (simp add: termYears_def)
  obtain l where "simulate 300000 (- 7 * (1 / 100)) 0 0 = Some (Inr l)"
    using simulate_negative_rate [OF _ _ _ _ ty, of "- 7 * (1 / 100)" 300000 0] by auto
  then have "calculate 300000 (- 7 * (1 / 100)) 0 0 = Some (Inr (report l))"
    by (rule calculate_report)
  then show ?thesis
    by (simp add: handleSubmit_def initial_state_def Let_def)
qed



text \<open>
  C8. Two valid inputs that differ only in the extra payment get the same monthly
  payment, unrounded and as returned; in each run every recorded month is computed by
  \<open>month\<close> from that one payment and the run's own extra payment.
\<close>

theorem monthlyPayment_fixed:
  assumes "valid_input P r t e1" and "valid_input P r t e2"
  shows "\<exists>l1 l2. simulate P r t e1 = Some (Inr l1) \<and> simulate P r t e2 = Some (Inr l2)
    \<and> calculate P r t e1 = Some (Inr (report l1))
    \<and> calculate P r t e2 = Some (Inr (report l2))
    \<and> l_monthlyPayment l1 = l_monthlyPayment l2
    \<and> calculation.monthlyPayment (report l1) = calculation.monthlyPayment (report l2)
    \<and> (\<exists>N1. concat (l_payments l1) = months (l_monthlyPayment l1) r e1 N1 P 0)
    \<and> (\<exists>N2. concat (l_payments l2) = months (l_monthlyPayment l1) r e2 N2 P 0)"
proof -
  let ?mp = "amortization P r (if t = 0 then 360 else 180)"
  obtain N1 where sim1: "simulate P r t e1 = Some (Inr
      \<lparr>l_monthlyPayment = ?mp, l_principal = (if N1 = 0 then P else 0),
       l_totalPaid = (\<Sum>m\<leftarrow>months ?mp r e1 N1 P 0. interestPayment m + principalPayment m),
       l_payments = chunks (months ?mp r e1 N1 P 0)\<rparr>)"
    by (rule simulate_valid [OF assms(1)])
  obtain N2 where sim2: "simulate P r t e2 = Some (Inr
      \<lparr>l_monthlyPayment = ?mp, l_principal = (if N2 = 0 then P else 0),
       l_totalPaid = (\<Sum>m\<leftarrow>months ?mp r e2 N2 P 0. interestPayment m + principalPayment m),
       l_payments = chunks (months ?mp r e2 N2 P 0)\<rparr>)"
    by (rule simulate_valid [OF assms(2)])
  define l1 where "l1 =
      \<lparr>l_monthlyPayment = ?mp, l_principal = (if N1 = 0 then P else 0),
       l_totalPaid = (\<Sum>m\<leftarrow>months ?mp r e1 N1 P 0. interestPayment m + principalPayment m),
       l_payments = chunks (months ?mp r e1 N1 P 0)\<rparr>"
  define l2 where "l2 =
      \<lparr>l_monthlyPayment = ?mp, l_principal = (if N2 = 0 then P else 0),
       l_totalPaid = (\<Sum>m\<leftarrow>months ?mp r e2 N2 P 0. interestPayment m + principalPayment m),
       l_payments = chunks (months ?mp r e2 N2 P 0)\<rparr>"
  have mp: "l_monthlyPayment l1 = ?mp" "l_monthlyPayment l2 = ?mp"
    by (simp_all add: l1_def l2_def)
  have "concat (l_payments l1) = months (l_monthlyPayment l1) r e1 N1 P 0"
    and "concat (l_payments l2) = months (l_monthlyPayment l1) r e2 N2 P 0"
    unfolding mp by (simp_all add: l1_def l2_def concat_chunks)
  moreover have "calculation.monthlyPayment (report l1) = calculation.monthlyPayment (report l2)"
    by (simp add: report_def mp)
  ultimately show ?thesis
    using sim1 sim2 calculate_report [OF sim1] calculate_report [OF sim2] mp
    unfolding l1_def [symmetric] l2_def [symmetric] by metis
qed

theorem monthlyPayment_fixed_witness:
  "valid_input 300000 (7 / 100) 0 0 \<and> valid_input 300000 (7 / 100) 0 500
   \<and> (\<exists>c1 c2. calculate 300000 (7 / 100) 0 0 = Some (Inr c1)
        \<and> calculate 300000 (7 / 100) 0 500 = Some (Inr c2)
        \<and> calculation.monthlyPayment c1 = calculation.monthlyPayment c2)"
proof -
  have v: "valid_input 300000 (7 / 100) 0 0" "valid_input 300000 (7 / 100) 0 500"
    by (simp_all add: valid_input_def)
  show ?thesis
    using v monthlyPayment_fixed [OF v] by auto
qed

text \<open>
  C9, as stated, on a loan of 50 cents (7 per cent, 30 years, nothing extra): the first
  year ends with a positive principal, and the table row shows the balance 0.
\<close>

theorem endingBalance_counterexample:
  "valid_input (1 / 2) (7 / 100) 0 0
   \<and> map_option (map_sum id (\<lambda>c. principalBalance (hd (calculation.tableData c))))
        (calculate (1 / 2) (7 / 100) 0 0) = Some (Inr (USD 0))
   \<and> map_option (map_sum id (\<lambda>l. 0 < payment.principal (last (hd (l_payments l)))))
        (simulate (1 / 2) (7 / 100) 0 0) = Some (Inr True)"
proof -
  let ?P = "1 / 2 :: real" and ?r = "7 / 100 :: real"
  let ?n = "if (0::nat) = 0 then 360 else 180 :: nat"
  let ?mp = "amortization ?P ?r ?n"
  have v: "valid_input ?P ?r 0 0"
    by (simp add: valid_input_def)
  obtain N where N: "\<forall>j<N. EPSILON < bal ?mp ?r 0 j ?P" "bal ?mp ?r 0 N ?P \<le> EPSILON"
    and sim: "simulate ?P ?r 0 0 = Some (Inr
      \<lparr>l_monthlyPayment = ?mp, l_principal = (if N = 0 then ?P else 0),
       l_totalPaid = (\<Sum>m\<leftarrow>months ?mp ?r 0 N ?P 0. interestPayment m + principalPayment m),
       l_payments = chunks (months ?mp ?r 0 N ?P 0)\<rparr>)"
    by (rule simulate_valid [OF v])
  define ms where "ms = months ?mp ?r 0 N ?P 0"
  have n: "?n = 12 * 30"
    by simp
  have "EPSILON < ?P / real (30::nat)"
    by (simp add: EPSILON_def)
  also have "\<dots> \<le> scheduled ?P ?r (12 * 30) (12 * 30 - 12)"
    by (rule scheduled_lower') simp_all
  finally have "12 * 30 - 12 < N"
    using payoff_months_scheduled [of ?r 30 ?P N] N unfolding n
    by (simp add: EPSILON_def)
  then have N12: "12 < N"
    by simp
  note first = first_year_balance [OF _ _ _ _ N12 N(1), folded ms_def]
  have b: "EPSILON < payment.principal (last (hd (chunks ms)))"
      "payment.principal (last (hd (chunks ms))) < 1 / 2"
    and ne: "hd (chunks ms) \<noteq> []"
    using first by simp_all
  have "length ms = N"
    by (simp add: ms_def)
  then have "ms \<noteq> []"
    using N12 by auto
  then have chunks_ne: "chunks ms \<noteq> []"
    by (subst chunks.simps) simp
  have "Math_round (payment.principal (last (hd (chunks ms)))) = 0"
    unfolding Math_round_def using b EPSILON_pos by (intro floor_unique) simp_all
  then have "principalBalance (hd (calculation.tableData (report
      \<lparr>l_monthlyPayment = ?mp, l_principal = (if N = 0 then ?P else 0),
       l_totalPaid = (\<Sum>m\<leftarrow>ms. interestPayment m + principalPayment m),
       l_payments = chunks ms\<rparr>))) = USD 0"
    using chunks_ne ne by (simp add: report_def hd_map lastPrincipal_def)
  moreover have "0 < payment.principal (last (hd (chunks ms)))"
    using b(1) EPSILON_pos by linarith
  ultimately show ?thesis
    using v calculate_report [OF sim] sim unfolding ms_def [symmetric] by simp
qed

text \<open>
  C9, amended. For every valid input and every year chunk (each holds 1 to 12 months):
  the chart data report the chunk's interest and principal as unrounded averages, the
  sum over the chunk's months divided by their number; the table row reports the
  chunk's interest and principal totals and the principal left by the chunk's last
  month, each rounded to a whole number for display. The last row's balance is 0.
\<close>

theorem yearly_aggregation:
  assumes "valid_input P r t e"
  shows "\<exists>l c. simulate P r t e = Some (Inr l) \<and> calculate P r t e = Some (Inr c)
    \<and> calculation.totalYears c = length (l_payments l)
    \<and> labels (chartData c) = [1..<length (l_payments l) + 1]
    \<and> map data (datasets (chartData c)) =
       [map (\<lambda>ms. (\<Sum>m\<leftarrow>ms. interestPayment m) / real (length ms)) (l_payments l),
        map (\<lambda>ms. (\<Sum>m\<leftarrow>ms. principalPayment m) / real (length ms)) (l_payments l)]
    \<and> calculation.tableData c =
       map (\<lambda>ms. \<lparr>row.interest = USD (Math_round (\<Sum>m\<leftarrow>ms. interestPayment m)),
                   row.principal = USD (Math_round (\<Sum>m\<leftarrow>ms. principalPayment m)),
                   principalBalance = USD (Math_round (payment.principal (last ms)))\<rparr>)
         (l_payments l)
    \<and> (\<forall>ms \<in> set (l_payments l). ms \<noteq> [] \<and> length ms \<le> 12)
    \<and> (l_payments l \<noteq> [] \<longrightarrow>
         principalBalance (last (calculation.tableData c)) = USD 0)"
proof -
  let ?mp = "amortization P r (if t = 0 then 360 else 180)"
  obtain N where N: "bal ?mp r e N P \<le> EPSILON"
    and sim: "simulate P r t e = Some (Inr
      \<lparr>l_monthlyPayment = ?mp, l_principal = (if N = 0 then P else 0),
       l_totalPaid = (\<Sum>m\<leftarrow>months ?mp r e N P 0. interestPayment m + principalPayment m),
       l_payments = chunks (months ?mp r e N P 0)\<rparr>)"
    by (rule simulate_valid [OF assms])
  define ms where "ms = months ?mp r e N P 0"
  define l where "l =
      \<lparr>l_monthlyPayment = ?mp, l_principal = (if N = 0 then P else 0),
       l_totalPaid = (\<Sum>m\<leftarrow>ms. interestPayment m + principalPayment m),
       l_payments = chunks ms\<rparr>"
  have sim': "simulate P r t e = Some (Inr l)"
    unfolding l_def ms_def by (rule sim)
  have pay: "l_payments l = chunks ms"
    by (simp add: l_def)
  have chunk: "\<forall>c \<in> set (l_payments l). c \<noteq> [] \<and> length c \<le> 12"
    unfolding pay by (rule ballI) (rule chunks_set)
  have "map (\<lambda>c. \<lparr>row.interest = USD (Math_round (\<Sum>m\<leftarrow>c. interestPayment m)),
                 row.principal = USD (Math_round (\<Sum>m\<leftarrow>c. principalPayment m)),
                 principalBalance = USD (Math_round (lastPrincipal c))\<rparr>) (l_payments l)
     = map (\<lambda>c. \<lparr>row.interest = USD (Math_round (\<Sum>m\<leftarrow>c. interestPayment m)),
                 row.principal = USD (Math_round (\<Sum>m\<leftarrow>c. principalPayment m)),
                 principalBalance = USD (Math_round (payment.principal (last c)))\<rparr>)
         (l_payments l)"
    using chunk by (intro map_cong) (auto simp: lastPrincipal_def)
  then have table: "calculation.tableData (report l) =
       map (\<lambda>c. \<lparr>row.interest = USD (Math_round (\<Sum>m\<leftarrow>c. interestPayment m)),
                   row.principal = USD (Math_round (\<Sum>m\<leftarrow>c. principalPayment m)),
                   principalBalance = USD (Math_round (payment.principal (last c)))\<rparr>)
         (l_payments l)"
    by (simp only: report_schedule(4))
  have final: "principalBalance (last (calculation.tableData (report l))) = USD 0"
    if ne: "l_payments l \<noteq> []"
  proof -
    have "ms \<noteq> []"
      using ne unfolding pay by auto
    then have pos: "0 < N"
      by (cases N) (auto simp: ms_def)
    have "payment.principal (last (last (chunks ms))) = payment.principal (last ms)"
      using \<open>ms \<noteq> []\<close> by (simp add: chunks_last)
    also have "\<dots> = 0"
      unfolding ms_def
      using months_last_principal [OF pos, of ?mp r e P 0] bal_snap [OF pos N] by simp
    finally show ?thesis
      unfolding table using ne by (simp add: last_map pay Math_round_0)
  qed
  show ?thesis
  proof (intro exI conjI)
    show "simulate P r t e = Some (Inr l)"
      by (rule sim')
    show "calculate P r t e = Some (Inr (report l))"
      by (rule calculate_report [OF sim'])
    show "calculation.totalYears (report l) = length (l_payments l)"
      by (rule report_schedule(1))
    show "labels (chartData (report l)) = [1..<length (l_payments l) + 1]"
      by (rule report_schedule(2))
    show "map data (datasets (chartData (report l))) =
       [map (\<lambda>ms. (\<Sum>m\<leftarrow>ms. interestPayment m) / real (length ms)) (l_payments l),
        map (\<lambda>ms. (\<Sum>m\<leftarrow>ms. principalPayment m) / real (length ms)) (l_payments l)]"
      by (rule report_schedule(3))
    show "calculation.tableData (report l) =
       map (\<lambda>c. \<lparr>row.interest = USD (Math_round (\<Sum>m\<leftarrow>c. interestPayment m)),
                   row.principal = USD (Math_round (\<Sum>m\<leftarrow>c. principalPayment m)),
                   principalBalance = USD (Math_round (payment.principal (last c)))\<rparr>)
         (l_payments l)"
      by (rule table)
    show "\<forall>c \<in> set (l_payments l). c \<noteq> [] \<and> length c \<le> 12"
      by (rule chunk)
    show "l_payments l \<noteq> [] \<longrightarrow>
         principalBalance (last (calculation.tableData (report l))) = USD 0"
      using final by (rule impI)
  qed
qed

theorem yearly_aggregation_witness:
  "valid_input 300000 (7 / 100) 0 500
   \<and> (\<exists>l c. simulate 300000 (7 / 100) 0 500 = Some (Inr l)
        \<and> calculate 300000 (7 / 100) 0 500 = Some (Inr c)
        \<and> map data (datasets (chartData c)) =
           [map (\<lambda>ms. (\<Sum>m\<leftarrow>ms. interestPayment m) / real (length ms)) (l_payments l),
            map (\<lambda>ms. (\<Sum>m\<leftarrow>ms. principalPayment m) / real (length ms)) (l_payments l)])"
proof -
  have v: "valid_input 300000 (7 / 100) 0 500"
    by (simp add: valid_input_def)
  from yearly_aggregation [OF v] show ?thesis
    by (elim exE conjE, intro conjI exI) (rule v, assumption+)
qed




end
